theory Spec2Isabelle
  imports Complex_Main "HOL-Library.Log_Nat"
begin

section \<open>JavaScript numbers\<close>

text \<open>
  A JavaScript number is an IEEE 754 binary64 value: a rational number that 53 binary
  digits and an exponent between \<open>-1074\<close> and \<open>971\<close> can write, or one of the
  infinities, or NaN. The two zeros are one value here: membership in a \<^verbatim>\<open>Set\<close>, the
  sign of a difference and the reading of an array do not tell them apart.
\<close>

datatype number = Finite rat | PosInfinity | NegInfinity | NaN

abbreviation Integer :: "int \<Rightarrow> number" where
  "Integer i \<equiv> Finite (of_int i)"

text \<open>For positive \<open>x\<close>, the exponent \<open>e\<close> with \<open>2\<^sup>e \<le> x < 2\<^sup>e\<^sup>+\<^sup>1\<close>.\<close>

definition exponent :: "rat \<Rightarrow> int" where
  "exponent x =
     (case quotient_of x of
        (a, b) \<Rightarrow> (let d = bitlen a - bitlen b in if 2 powi d \<le> x then d else d - 1))"

definition round_half_even :: "rat \<Rightarrow> int" where
  "round_half_even q =
     (let f = \<lfloor>q\<rfloor>; d = q - of_int f
      in if d < 1 / 2 then f else if 1 / 2 < d then f + 1 else if even f then f else f + 1)"

text \<open>
  Rounding of an exact result to the nearest double, ties to the even significand
  (the rounding of every arithmetic operation): the spacing of the doubles around \<open>x\<close>
  is \<open>2\<^sup>e\<^sup>-\<^sup>5\<^sup>2\<close> for the exponent \<open>e\<close> of \<open>x\<close>, and \<open>2\<^sup>-\<^sup>1\<^sup>0\<^sup>7\<^sup>4\<close> below \<open>2\<^sup>-\<^sup>1\<^sup>0\<^sup>2\<^sup>2\<close>;
  a result of magnitude \<open>2\<^sup>1\<^sup>0\<^sup>2\<^sup>4\<close> or more (exponent above \<open>1023\<close>) is an infinity.
\<close>

definition round_double :: "rat \<Rightarrow> number" where
  "round_double x =
     (if x = 0 then Finite 0
      else (let u = 2 powi (max (exponent \<bar>x\<bar>) (- 1022) - 52);
                y = of_int (round_half_even (x / u)) * u
            in if exponent \<bar>y\<bar> < 1024 then Finite y
               else if 0 < y then PosInfinity else NegInfinity))"

definition is_double :: "rat \<Rightarrow> bool" where
  "is_double x \<longleftrightarrow> round_double x = Finite x"

fun number_neg :: "number \<Rightarrow> number" where
  "number_neg (Finite x) = Finite (- x)"
| "number_neg PosInfinity = NegInfinity"
| "number_neg NegInfinity = PosInfinity"
| "number_neg NaN = NaN"

fun number_add :: "number \<Rightarrow> number \<Rightarrow> number" where
  "number_add (Finite x) (Finite y) = round_double (x + y)"
| "number_add NaN b = NaN"
| "number_add a NaN = NaN"
| "number_add PosInfinity NegInfinity = NaN"
| "number_add NegInfinity PosInfinity = NaN"
| "number_add PosInfinity b = PosInfinity"
| "number_add a PosInfinity = PosInfinity"
| "number_add NegInfinity b = NegInfinity"
| "number_add a NegInfinity = NegInfinity"

definition number_sub :: "number \<Rightarrow> number \<Rightarrow> number" where
  "number_sub a b = number_add a (number_neg b)"

fun number_mul :: "number \<Rightarrow> number \<Rightarrow> number" where
  "number_mul (Finite x) (Finite y) = round_double (x * y)"
| "number_mul NaN b = NaN"
| "number_mul a NaN = NaN"
| "number_mul (Finite x) b = (if x = 0 then NaN else if 0 < x then b else number_neg b)"
| "number_mul a (Finite y) = (if y = 0 then NaN else if 0 < y then a else number_neg a)"
| "number_mul a b = (if a = b then PosInfinity else NegInfinity)"

fun Math_floor :: "number \<Rightarrow> number" where
  "Math_floor (Finite x) = Integer \<lfloor>x\<rfloor>"
| "Math_floor a = a"

text \<open>A number is above zero: what a sort asks of the value of its comparator.\<close>

fun positive :: "number \<Rightarrow> bool" where
  "positive (Finite x) \<longleftrightarrow> 0 < x"
| "positive PosInfinity \<longleftrightarrow> True"
| "positive a \<longleftrightarrow> False"


section \<open>Lottery number generators (src/utils/lotteryGenerators.ts)\<close>

text \<open>
  The module draws random integers within fixed ranges and assembles ticket records.
  The bounds and the count that its functions take are integers, written \<open>int\<close>;
  every value that the arithmetic of the module produces is a \<open>number\<close>.
\<close>

subsection \<open>Data model\<close>

text \<open>
  The two ticket interfaces. The multiplier field is filled from an array read; such a
  read yields \<^verbatim>\<open>undefined\<close> outside the array, which is \<open>None\<close> here.
\<close>

record PowerballTicket =
  numbers :: "number list"
  powerball :: number
  powerPlay :: "number option"

record MegaMillionsTicket =
  numbers :: "number list"
  megaBall :: number
  megaplier :: "number option"

subsection \<open>The source of randomness\<close>

text \<open>
  \<^verbatim>\<open>Math.random\<close> is global state. It is modelled as an infinite sequence of the
  values it is going to return, together with the number of calls made so far.
\<close>

record rng =
  source :: "nat \<Rightarrow> rat"
  calls :: nat

definition Math_random :: "rng \<Rightarrow> number \<times> rng" where
  "Math_random s = (Finite (source s (calls s)), s\<lparr>calls := Suc (calls s)\<rparr>)"

text \<open>The contract of \<^verbatim>\<open>Math.random\<close>: every value is a double of \<open>[0, 1)\<close>.\<close>

definition valid_rng :: "rng \<Rightarrow> bool" where
  "valid_rng s \<longleftrightarrow> (\<forall>i. 0 \<le> source s i \<and> source s i < 1 \<and> is_double (source s i))"

subsection \<open>getRandomNumber\<close>

text \<open>
  \<^verbatim>\<open>return Math.floor(Math.random() * (max - min + 1)) + min;\<close>
  Each of the four arithmetic operations rounds its result. The bounds are integers
  that are doubles (every integer up to \<open>2\<^sup>5\<^sup>3\<close> in magnitude is one, and so is
  \<open>2\<^sup>1\<^sup>0\<^sup>2\<^sup>3\<close>).
\<close>

definition getRandomNumber :: "int \<Rightarrow> int \<Rightarrow> rng \<Rightarrow> number \<times> rng" where
  "getRandomNumber min' max' s =
     (case Math_random s of
        (r, s') \<Rightarrow>
          (number_add
             (Math_floor
                (number_mul r
                   (number_add (number_sub (Integer max') (Integer min')) (Integer 1))))
             (Integer min'),
           s'))"

subsection \<open>generateUniqueNumbers\<close>

text \<open>
  A JavaScript \<^verbatim>\<open>Set\<close> of numbers keeps its members in insertion order and ignores the
  insertion of a member it already has: a duplicate-free list, extended at the end.
\<close>

definition Set_add :: "number list \<Rightarrow> number \<Rightarrow> number list" where
  "Set_add numbers' x = (if x \<in> set numbers' then numbers' else numbers' @ [x])"

definition Set_size :: "number list \<Rightarrow> int" where
  "Set_size numbers' = int (length numbers')"

text \<open>
  \<^verbatim>\<open>while (numbers.size < count) { numbers.add(getRandomNumber(min, max)); }\<close>
  The loop need not end; a run that never leaves it has the value \<open>None\<close>.
\<close>

partial_function (option) generateUniqueNumbers_loop ::
  "int \<Rightarrow> int \<Rightarrow> int \<Rightarrow> number list \<Rightarrow> rng \<Rightarrow> (number list \<times> rng) option" where
  "generateUniqueNumbers_loop count min' max' numbers' s =
     (if Set_size numbers' < count
      then (case getRandomNumber min' max' s of
              (x, s') \<Rightarrow> generateUniqueNumbers_loop count min' max' (Set_add numbers' x) s')
      else Some (numbers', s))"

declare generateUniqueNumbers_loop.simps [code]

text \<open>
  \<^verbatim>\<open>return Array.from(numbers).sort((a, b) => a - b);\<close>
  The comparator is the rounded difference. The sort is written as a stable insertion
  sort that puts \<open>a\<close> behind \<open>b\<close> when the comparator is above zero, the order that
  every sort produces for a consistent comparator. (This comparator is consistent on
  the sets the loop builds from a source that keeps to the contract of
  \<^verbatim>\<open>Math.random\<close>: NaN is drawn only when \<open>max - min + 1\<close> is infinite, and then
  nothing is drawn besides NaN and one infinity.)
\<close>

definition compareFn :: "number \<Rightarrow> number \<Rightarrow> number" where
  "compareFn a b = number_sub a b"

fun insert_sorted :: "number \<Rightarrow> number list \<Rightarrow> number list" where
  "insert_sorted a [] = [a]"
| "insert_sorted a (b # bs) =
     (if positive (compareFn a b) then b # insert_sorted a bs else a # b # bs)"

definition Array_sort :: "number list \<Rightarrow> number list" where
  "Array_sort xs = foldr insert_sorted xs []"

definition generateUniqueNumbers ::
  "int \<Rightarrow> int \<Rightarrow> int \<Rightarrow> rng \<Rightarrow> (number list \<times> rng) option" where
  "generateUniqueNumbers count min' max' s =
     (case generateUniqueNumbers_loop count min' max' [] s of
        None \<Rightarrow> None
      | Some (numbers', s') \<Rightarrow> Some (Array_sort numbers', s'))"

subsection \<open>The ticket generators\<close>

text \<open>
  Reading an array at a number: the element at that position, \<^verbatim>\<open>undefined\<close> when the
  number is not a position of the array.
\<close>

fun array_get :: "'a list \<Rightarrow> number \<Rightarrow> 'a option" where
  "array_get xs (Finite i) =
     (if of_int \<lfloor>i\<rfloor> = i \<and> 0 \<le> i \<and> \<lfloor>i\<rfloor> < int (length xs) then Some (xs ! nat \<lfloor>i\<rfloor>) else None)"
| "array_get xs i = None"

definition powerPlayOptions :: "number list" where
  "powerPlayOptions = [Integer 2, Integer 3, Integer 4, Integer 5, Integer 10]"

definition generatePowerballTicket :: "rng \<Rightarrow> (PowerballTicket \<times> rng) option" where
  "generatePowerballTicket s =
     (case generateUniqueNumbers 5 1 69 s of
        None \<Rightarrow> None
      | Some (numbers', s1) \<Rightarrow>
          (case getRandomNumber 1 26 s1 of
             (powerball', s2) \<Rightarrow>
               (case getRandomNumber 0 (int (length powerPlayOptions) - 1) s2 of
                  (i, s3) \<Rightarrow>
                    Some (\<lparr>PowerballTicket.numbers = numbers', powerball = powerball',
                            powerPlay = array_get powerPlayOptions i\<rparr>, s3))))"

definition megaplierOptions :: "number list" where
  "megaplierOptions = [Integer 2, Integer 3, Integer 4, Integer 5]"

definition generateMegaMillionsTicket :: "rng \<Rightarrow> (MegaMillionsTicket \<times> rng) option" where
  "generateMegaMillionsTicket s =
     (case generateUniqueNumbers 5 1 70 s of
        None \<Rightarrow> None
      | Some (numbers', s1) \<Rightarrow>
          (case getRandomNumber 1 25 s1 of
             (megaBall', s2) \<Rightarrow>
               (case getRandomNumber 0 (int (length megaplierOptions) - 1) s2 of
                  (i, s3) \<Rightarrow>
                    Some (\<lparr>MegaMillionsTicket.numbers = numbers', megaBall = megaBall',
                            megaplier = array_get megaplierOptions i\<rparr>, s3))))"

subsection \<open>Sampler outputs of a run\<close>

text \<open>
  The values that successive calls of \<^verbatim>\<open>getRandomNumber\<close> return, the calls being made
  with the listed bounds, one after the other, from the state \<open>s\<close> on.
\<close>

fun samplerOutputs :: "(int \<times> int) list \<Rightarrow> rng \<Rightarrow> number list" where
  "samplerOutputs [] s = []"
| "samplerOutputs ((min', max') # bs) s =
     (case getRandomNumber min' max' s of (x, s') \<Rightarrow> x # samplerOutputs bs s')"

text \<open>
  Bounds in the range where integer arithmetic on doubles is exact: both within
  \<open>\<plusminus>2\<^sup>5\<^sup>3\<close> and less than \<open>2\<^sup>5\<^sup>3\<close> apart.
\<close>

definition safe_bounds :: "int \<Rightarrow> int \<Rightarrow> bool" where
  "safe_bounds min' max' \<longleftrightarrow> - (2 ^ 53) \<le> min' \<and> max' \<le> 2 ^ 53 \<and> max' - min' < 2 ^ 53"

subsection \<open>Example sources of randomness\<close>

text \<open>A source that cycles through \<open>0, 1/8, \<dots>, 7/8\<close>, before its first call.\<close>

definition example_rng :: rng where
  "example_rng = \<lparr>source = (\<lambda>n. of_nat (n mod 8) / 8), calls = 0\<rparr>"

text \<open>The same future values, in a source that has been called three times already.\<close>

definition shifted_rng :: rng where
  "shifted_rng = \<lparr>source = (\<lambda>n. of_nat ((n + 5) mod 8) / 8), calls = 3\<rparr>"

text \<open>
  A source whose first seven values make the sampler return \<open>5, 12, 23, 45, 67\<close> on
  \<open>[1, 69]\<close>, then \<open>15\<close> on \<open>[1, 26]\<close>, then \<open>3\<close> on \<open>[0, 4]\<close>.
\<close>

definition mocked_rng :: rng where
  "mocked_rng =
     \<lparr>source = (\<lambda>n. if n < 7 then [1 / 16, 21 / 128, 21 / 64, 41 / 64, 31 / 32, 9 / 16, 3 / 4] ! n
                      else 0),
      calls = 0\<rparr>"

text \<open>A source that returns \<open>0\<close> at every call, and one that returns \<open>1/2\<close>.\<close>

definition zero_rng :: rng where
  "zero_rng = \<lparr>source = (\<lambda>n. 0), calls = 0\<rparr>"


text \<open>The largest power of two among the doubles, an integer.\<close>

definition huge :: int where
  "huge = 2 ^ 1023"

section \<open>Auxiliary facts\<close>

subsection \<open>Powers of two\<close>

lemma pow2_less_D: "(2::rat) powi m < 2 powi n \<Longrightarrow> m < n"
proof (rule ccontr)
  assume less: "(2::rat) powi m < 2 powi n" and "\<not> m < n"
  then have "n \<le> m" by simp
  then have "(2::rat) powi n \<le> 2 powi m" by (rule power_int_increasing) simp
  with less show False by simp
qed

lemma pow2_le_D: "(2::rat) powi m \<le> 2 powi n \<Longrightarrow> m \<le> n"
proof (rule ccontr)
  assume le: "(2::rat) powi m \<le> 2 powi n" and "\<not> m \<le> n"
  then have "n < m" by simp
  then have "(2::rat) powi n < 2 powi m" by (intro power_int_strict_increasing) simp_all
  with le show False by simp
qed

lemma pow2_nat: "0 \<le> n \<Longrightarrow> (2::rat) powi n = of_int (2 ^ nat n)"
  by (simp add: power_int_nonneg_exp)

subsection \<open>The exponent of a positive rational\<close>

lemma exponent_bounds:
  assumes "0 < x"
  shows "2 powi exponent x \<le> x" and "x < 2 powi (exponent x + 1)"
proof -
  obtain a b where q: "quotient_of x = (a, b)" by (cases "quotient_of x")
  have b: "0 < b" using q by (rule quotient_of_denom_pos)
  have x: "x = of_int a / of_int b" using q by (rule quotient_of_div)
  have a: "0 < a" using assms b unfolding x by (simp add: zero_less_divide_iff)
  define p where "p = bitlen a"
  define r where "r = bitlen b"
  have p: "1 \<le> p" using a bitlen_eq_zero_iff[of a] bitlen_nonneg[of a] by (simp add: p_def)
  have r: "1 \<le> r" using b bitlen_eq_zero_iff[of b] bitlen_nonneg[of b] by (simp add: r_def)
  from bitlen_bounds[OF a] have "2 ^ nat (p - 1) \<le> a" "a < 2 ^ nat p" by (simp_all add: p_def)
  then have A: "(2::rat) powi (p - 1) \<le> of_int a" "of_int a < (2::rat) powi p"
    using p by (simp_all add: pow2_nat del: of_int_power)
  from bitlen_bounds[OF b] have "2 ^ nat (r - 1) \<le> b" "b < 2 ^ nat r" by (simp_all add: r_def)
  then have B: "(2::rat) powi (r - 1) \<le> of_int b" "of_int b < (2::rat) powi r"
    using r by (simp_all add: pow2_nat del: of_int_power)
  have bpos: "(0::rat) < of_int b" using b by simp
  have apos: "(0::rat) < of_int a" using a by simp
  have "(2::rat) powi (p - r - 1) = 2 powi (p - 1) / 2 powi r"
    using power_int_diff[of "2::rat" "p - 1" r] by (simp add: algebra_simps)
  also have "\<dots> \<le> of_int a / 2 powi r"
    using A(1) by (simp add: divide_right_mono)
  also have "\<dots> < of_int a / of_int b"
    using B(2) apos bpos by (simp add: divide_strict_left_mono)
  finally have lower: "2 powi (p - r - 1) < x" unfolding x .
  have "(of_int a :: rat) / of_int b < 2 powi p / of_int b"
    using A(2) bpos by (simp add: divide_strict_right_mono)
  also have "\<dots> \<le> 2 powi p / 2 powi (r - 1)"
    using B(1) bpos by (intro divide_left_mono) (simp_all add: zero_less_mult_iff)
  also have "\<dots> = 2 powi (p - r + 1)"
    using power_int_diff[of "2::rat" p "r - 1"] by (simp add: algebra_simps)
  finally have upper: "x < 2 powi (p - r + 1)" unfolding x .
  have e: "exponent x = (if 2 powi (p - r) \<le> x then p - r else p - r - 1)"
    by (simp add: exponent_def q p_def r_def Let_def)
  show "2 powi exponent x \<le> x" using lower by (simp add: e)
  show "x < 2 powi (exponent x + 1)" using upper by (simp add: e not_le)
qed

lemma exponent_eqI:
  assumes "0 < x" and "2 powi e \<le> x" and "x < 2 powi (e + 1)"
  shows "exponent x = e"
proof -
  note b = exponent_bounds[OF assms(1)]
  from b(1) assms(3) have "(2::rat) powi exponent x < 2 powi (e + 1)" by (rule le_less_trans)
  then have "exponent x < e + 1" by (rule pow2_less_D)
  moreover from assms(2) b(2) have "(2::rat) powi e < 2 powi (exponent x + 1)" by (rule le_less_trans)
  then have "e < exponent x + 1" by (rule pow2_less_D)
  ultimately show ?thesis by simp
qed

lemma exponent_less:
  assumes "0 < x" and "x < 2 powi n"
  shows "exponent x < n"
  using exponent_bounds(1)[OF assms(1)] assms(2) by (intro pow2_less_D) (rule le_less_trans)

lemma exponent_ge:
  assumes "0 < x" and "2 powi n \<le> x"
  shows "n \<le> exponent x"
proof -
  from assms(2) exponent_bounds(2)[OF assms(1)]
  have "(2::rat) powi n < 2 powi (exponent x + 1)" by (rule le_less_trans)
  then have "n < exponent x + 1" by (rule pow2_less_D)
  then show ?thesis by simp
qed

subsection \<open>Rounding to an integer\<close>

lemma round_half_even_upper: "of_int (round_half_even q) \<le> q + 1 / 2"
proof -
  have f: "of_int \<lfloor>q\<rfloor> \<le> q" "q < of_int \<lfloor>q\<rfloor> + 1" by linarith+
  show ?thesis
    unfolding round_half_even_def Let_def using f by (simp split: if_splits) linarith
qed

lemma round_half_even_lower: "q - 1 / 2 \<le> of_int (round_half_even q)"
proof -
  have f: "of_int \<lfloor>q\<rfloor> \<le> q" "q < of_int \<lfloor>q\<rfloor> + 1" by linarith+
  show ?thesis
    unfolding round_half_even_def Let_def using f by (simp split: if_splits)
qed

lemma round_half_even_of_int: "round_half_even (of_int k) = k"
  by (simp add: round_half_even_def)

lemma round_half_even_nonneg: "0 \<le> q \<Longrightarrow> 0 \<le> round_half_even q"
  by (auto simp: round_half_even_def Let_def)

subsection \<open>Rounding to a double\<close>

lemma exponent_zero: "exponent 0 = - 2"
  by code_simp

lemma round_double_unfold:
  assumes "x \<noteq> 0"
    and "u = 2 powi (max (exponent \<bar>x\<bar>) (- 1022) - 52)"
    and "y = of_int (round_half_even (x / u)) * u"
  shows "round_double x =
         (if exponent \<bar>y\<bar> < 1024 then Finite y else if 0 < y then PosInfinity else NegInfinity)"
  using assms by (simp add: round_double_def Let_def)

text \<open>Integers up to \<open>2\<^sup>5\<^sup>3\<close> in magnitude are doubles.\<close>

lemma round_double_int:
  assumes "\<bar>i\<bar> \<le> 2 ^ 53"
  shows "round_double (of_int i) = Integer i"
proof (cases "i = 0")
  case True
  then show ?thesis by (simp add: round_double_def)
next
  case False
  define x :: rat where "x = of_int i"
  define e where "e = exponent \<bar>x\<bar>"
  define u :: rat where "u = 2 powi (max e (- 1022) - 52)"
  define y where "y = of_int (round_half_even (x / u)) * u"
  have x0: "x \<noteq> 0" and xpos: "0 < \<bar>x\<bar>" using False by (simp_all add: x_def)
  have "1 \<le> \<bar>i\<bar>" using False by simp
  then have one: "(2::rat) powi 0 \<le> \<bar>x\<bar>" unfolding x_def by (simp flip: of_int_abs)
  have "\<bar>x\<bar> \<le> of_int (2 ^ 53)" unfolding x_def using assms by (simp flip: of_int_abs del: of_int_power)
  then have top: "\<bar>x\<bar> \<le> 2 powi 53" by simp
  have e0: "0 \<le> e" unfolding e_def using xpos one by (rule exponent_ge)
  have "(2::rat) powi e \<le> 2 powi 53"
    using exponent_bounds(1)[OF xpos] top unfolding e_def by (rule order_trans)
  then have e53: "e \<le> 53" by (rule pow2_le_D)
  have u: "u = 2 powi (e - 52)" using e0 by (simp add: u_def max_def)
  have "\<exists>k. x / u = of_int k"
  proof (cases "e \<le> 52")
    case True
    have "1 / u = 2 powi (52 - e)" unfolding u using power_int_minus[of "2::rat" "e - 52"]
      by (simp add: field_simps)
    also have "\<dots> = of_int (2 ^ nat (52 - e))" using True by (simp add: pow2_nat)
    finally have "1 / u = of_int (2 ^ nat (52 - e))" .
    moreover have "x / u = x * (1 / u)" by simp
    ultimately have "x / u = of_int (i * 2 ^ nat (52 - e))"
      unfolding x_def by (simp only: of_int_mult)
    then show ?thesis ..
  next
    case False
    with e53 have e: "e = 53" by simp
    have "(2::rat) powi 53 \<le> \<bar>x\<bar>" using exponent_bounds(1)[OF xpos] by (simp add: e_def[symmetric] e)
    with top have "\<bar>x\<bar> = 2 powi 53" by simp
    then have "\<bar>i\<bar> = 2 ^ 53" unfolding x_def by (simp flip: of_int_abs)
    then have "i = 2 * 2 ^ 52 \<or> i = 2 * (- (2 ^ 52))" by (cases "0 \<le> i") simp_all
    then obtain j where j: "i = 2 * j" by blast
    have "x / u = of_int j" unfolding u e x_def j by simp
    then show ?thesis ..
  qed
  then obtain k where k: "x / u = of_int k" ..
  have upos: "0 < u" by (simp add: u_def)
  have y: "y = x" unfolding y_def k round_half_even_of_int using k upos by (simp add: field_simps)
  have "exponent \<bar>y\<bar> < 1024" using e53 by (simp add: y e_def[symmetric])
  then have "round_double x = Finite x"
    using round_double_unfold[OF x0 u_def[unfolded e_def] y_def] by (simp add: y)
  then show ?thesis by (simp add: x_def)
qed

text \<open>A double below \<open>1\<close> is at most \<open>1 - 2\<^sup>-\<^sup>5\<^sup>3\<close>.\<close>

lemma double_below_one:
  assumes "is_double r" and "0 < r" and "r < 1"
  shows "r \<le> 1 - 1 / 2 ^ 53"
proof -
  define e where "e = exponent r"
  define u :: rat where "u = 2 powi (max e (- 1022) - 52)"
  define k where "k = round_half_even (r / u)"
  have r0: "r \<noteq> 0" and ar: "\<bar>r\<bar> = r" using assms(2) by simp_all
  have "round_double r = Finite r" using assms(1) by (simp add: is_double_def)
  then have "(if exponent \<bar>of_int k * u\<bar> < 1024 then Finite (of_int k * u)
              else if 0 < of_int k * u then PosInfinity else NegInfinity) = Finite r"
    using round_double_unfold[OF r0, of u "of_int k * u"] by (simp add: u_def e_def k_def ar)
  then have r: "r = of_int k * u" by (simp split: if_splits)
  have "r < 2 powi 0" using assms(3) by simp
  with assms(2) have neg: "e < 0" unfolding e_def by (rule exponent_less)
  show ?thesis
  proof (cases "e = - 1")
    case True
    have u: "u = 1 / 2 ^ 53" by (simp add: u_def True power_int_minus_divide)
    have "of_int k < (2::rat) ^ 53" using assms(3) unfolding r u by (simp add: field_simps)
    then have "of_int k < (of_int (2 ^ 53) :: rat)" by simp
    then have "k < 2 ^ 53" by (simp only: of_int_less_iff)
    then have "k \<le> 2 ^ 53 - 1" by simp
    then have "(of_int k :: rat) \<le> of_int (2 ^ 53 - 1)" by (simp only: of_int_le_iff)
    then show ?thesis unfolding r u by (simp add: field_simps)
  next
    case False
    with neg have "e + 1 \<le> - 1" by simp
    then have "(2::rat) powi (e + 1) \<le> 2 powi (- 1)" by (rule power_int_increasing) simp
    with exponent_bounds(2)[OF assms(2)] have "r < 2 powi (- 1)" by (simp add: e_def)
    then have "r < 1 / 2" by simp
    then show ?thesis by simp
  qed
qed

text \<open>
  The product of a double of \<open>[0, 1)\<close> and an integer \<open>n\<close> of \<open>[1, 2\<^sup>5\<^sup>3]\<close>, once rounded,
  is still below \<open>n\<close>.
\<close>

lemma round_double_product:
  assumes "is_double r" and "0 \<le> r" and "r < 1" and "1 \<le> n" and "n \<le> 2 ^ 53"
  shows "\<exists>y. round_double (r * of_int n) = Finite y \<and> 0 \<le> y \<and> y < of_int n"
proof (cases "r = 0")
  case True
  then show ?thesis using assms(4) by (simp add: round_double_def)
next
  case False
  with assms(2) have rpos: "0 < r" by simp
  define N :: rat where "N = of_int n"
  define x where "x = r * N"
  define e where "e = exponent \<bar>x\<bar>"
  define E where "E = max e (- 1022)"
  define u :: rat where "u = 2 powi (E - 52)"
  define k where "k = round_half_even (x / u)"
  define y where "y = of_int k * u"
  have N1: "1 \<le> N" using assms(4) by (simp add: N_def)
  have xpos: "0 < x" using rpos N1 by (simp add: x_def)
  then have x0: "x \<noteq> 0" and ax: "\<bar>x\<bar> = x" by simp_all
  have upos: "0 < u" by (simp add: u_def)
  have "r * N \<le> (1 - 1 / 2 ^ 53) * N"
    using double_below_one[OF assms(1) rpos assms(3)] N1 by (intro mult_right_mono) simp_all
  then have xle: "x \<le> N - N / 2 ^ 53" by (simp add: x_def algebra_simps)
  have "0 \<le> x / u" using xpos upos by simp
  then have "0 \<le> k" unfolding k_def by (rule round_half_even_nonneg)
  then have y0: "0 \<le> y" using upos by (simp add: y_def)
  have "of_int k * u \<le> (x / u + 1 / 2) * u"
    using round_half_even_upper[of "x / u"] upos unfolding k_def by (intro mult_right_mono) simp_all
  moreover have "(x / u + 1 / 2) * u = x + u / 2" using upos by (simp add: field_simps)
  ultimately have yle: "y \<le> x + u / 2" by (simp add: y_def)
  have yN: "y < N"
  proof (rule ccontr)
    assume "\<not> y < N"
    then have "N \<le> x + u / 2" using yle by simp
    with xle have "N / 2 ^ 53 \<le> u / 2" by simp
    then have "N \<le> 2 ^ 52 * u" by (simp add: field_simps)
    also have "\<dots> = 2 powi 52 * 2 powi (E - 52)" by (simp add: u_def)
    also have "\<dots> = 2 powi E" using power_int_add[of "2::rat" 52 "E - 52"] by simp
    finally have NE: "N \<le> 2 powi E" .
    show False
    proof (cases "- 1022 \<le> e")
      case True
      then have "E = e" by (simp add: E_def)
      then have "2 powi E \<le> x" using exponent_bounds(1)[of "\<bar>x\<bar>"] xpos by (simp add: e_def ax)
      with NE have "N \<le> x" by simp
      moreover have "x < N" using xle N1 by (simp add: field_simps)
      ultimately show False by simp
    next
      case False
      then have "E = - 1022" by (simp add: E_def)
      then have "(2::rat) powi E < 2 powi 0" by (intro power_int_strict_increasing) simp_all
      with NE N1 show False by simp
    qed
  qed
  have "exponent \<bar>y\<bar> < 1024"
  proof (cases "y = 0")
    case True
    then show ?thesis by (simp add: exponent_zero)
  next
    case False
    with y0 have ypos: "0 < y" by simp
    have "N \<le> of_int (2 ^ 53)" unfolding N_def using assms(5) by (simp only: of_int_le_iff)
    then have "N \<le> 2 powi 53" by simp
    also have "(2::rat) powi 53 \<le> 2 powi 1024" by (rule power_int_increasing) simp_all
    finally have "y < 2 powi 1024" using yN by simp
    with ypos have "exponent y < 1024" by (rule exponent_less)
    then show ?thesis using ypos by simp
  qed
  then have "round_double x = Finite y"
    using round_double_unfold[OF x0, of u y] by (simp add: u_def E_def e_def y_def k_def)
  then show ?thesis using y0 yN by (auto simp: x_def N_def)
qed

text \<open>An exact result of \<open>2\<^sup>1\<^sup>0\<^sup>2\<^sup>4\<close> or more rounds to infinity.\<close>

lemma round_double_overflow:
  assumes "2 powi 1024 \<le> x"
  shows "round_double x = PosInfinity"
proof -
  define e where "e = exponent \<bar>x\<bar>"
  define u :: rat where "u = 2 powi (max e (- 1022) - 52)"
  define k where "k = round_half_even (x / u)"
  define y where "y = of_int k * u"
  have "(0::rat) < 2 powi 1024" by simp
  from this assms have xpos: "0 < x" by (rule less_le_trans)
  then have x0: "x \<noteq> 0" and ax: "\<bar>x\<bar> = x" by simp_all
  have e: "1024 \<le> e" unfolding e_def ax using xpos assms by (rule exponent_ge)
  then have u: "u = 2 powi (e - 52)" by (simp add: u_def max_def)
  have upos: "0 < u" by (simp add: u)
  have "2 powi e \<le> x" using exponent_bounds(1)[OF xpos] by (simp add: e_def ax)
  then have "2 powi e / u \<le> x / u" using upos by (simp add: divide_right_mono)
  moreover have "2 powi e / u = 2 powi 52"
    unfolding u using power_int_diff[of "2::rat" e "e - 52"] by simp
  ultimately have "(2::rat) ^ 52 \<le> x / u" by simp
  with round_half_even_lower[of "x / u"] have "(2::rat) ^ 52 - 1 / 2 \<le> of_int k"
    unfolding k_def by simp
  then have "of_int (2 ^ 52 - 1) < (of_int k :: rat)" by simp
  then have "2 ^ 52 - 1 < k" by (simp only: of_int_less_iff)
  then have "2 ^ 52 \<le> k" by simp
  then have "(of_int (2 ^ 52) :: rat) \<le> of_int k" by (simp only: of_int_le_iff)
  then have "2 powi 52 * u \<le> of_int k * u" using upos by (intro mult_right_mono) simp_all
  moreover have "2 powi 52 * u = 2 powi e"
    unfolding u using power_int_add[of "2::rat" 52 "e - 52"] by simp
  ultimately have ye: "2 powi e \<le> y" by (simp add: y_def)
  have "(2::rat) powi 1024 \<le> 2 powi e" using e by (rule power_int_increasing) simp
  with ye have big: "2 powi 1024 \<le> y" by simp
  with \<open>(0::rat) < 2 powi 1024\<close> have ypos: "0 < y" by (rule less_le_trans)
  then have "1024 \<le> exponent \<bar>y\<bar>" using big by (simp add: exponent_ge)
  then show ?thesis
    using round_double_unfold[OF x0, of u y] ypos by (simp add: u_def e_def y_def k_def)
qed

subsection \<open>One call of the sampler\<close>

lemma getRandomNumber_snd: "snd (getRandomNumber mn mx s) = s\<lparr>calls := Suc (calls s)\<rparr>"
  by (simp add: getRandomNumber_def Math_random_def)

lemma getRandomNumber_fst_cong:
  "source s (calls s) = source t (calls t) \<Longrightarrow>
   fst (getRandomNumber mn mx s) = fst (getRandomNumber mn mx t)"
  by (simp add: getRandomNumber_def Math_random_def)

text \<open>
  Within safe bounds the differences and sums of the sampler are exact, and the rounded
  product stays below \<open>max - min + 1\<close>: the result is an integer of \<open>[min, max]\<close>.
\<close>

lemma getRandomNumber_range:
  assumes "valid_rng s" and "mn \<le> mx" and "safe_bounds mn mx"
  shows "\<exists>i. fst (getRandomNumber mn mx s) = Integer i \<and> mn \<le> i \<and> i \<le> mx"
proof -
  define r where "r = source s (calls s)"
  have r: "is_double r" "0 \<le> r" "r < 1" using assms(1) by (simp_all add: valid_rng_def r_def)
  have b: "- (2 ^ 53) \<le> mn" "mx \<le> 2 ^ 53" "mx - mn < 2 ^ 53"
    using assms(3) by (simp_all add: safe_bounds_def)
  have "number_sub (Integer mx) (Integer mn) = round_double (of_int (mx - mn))"
    by (simp add: number_sub_def)
  also have "\<dots> = Integer (mx - mn)" using b assms(2) by (intro round_double_int) simp
  finally have d: "number_sub (Integer mx) (Integer mn) = Integer (mx - mn)" .
  have "number_add (Integer (mx - mn)) (Integer 1) = round_double (of_int (mx - mn + 1))"
    by simp
  also have "\<dots> = Integer (mx - mn + 1)" using b assms(2) by (intro round_double_int) simp
  finally have n: "number_add (number_sub (Integer mx) (Integer mn)) (Integer 1) =
                   Integer (mx - mn + 1)" by (simp only: d)
  have "1 \<le> mx - mn + 1" "mx - mn + 1 \<le> 2 ^ 53" using b assms(2) by simp_all
  from round_double_product[OF r this] obtain y where
    y: "round_double (r * of_int (mx - mn + 1)) = Finite y" "0 \<le> y" "y < of_int (mx - mn + 1)"
    by blast
  define f where "f = \<lfloor>y\<rfloor>"
  have "f < mx - mn + 1" unfolding f_def using y(3) by (simp only: floor_less_iff)
  moreover have "0 \<le> f" using y(2) by (simp add: f_def)
  ultimately have f: "0 \<le> f" "f \<le> mx - mn" by simp_all
  have "number_add (Integer f) (Integer mn) = round_double (of_int (f + mn))" by simp
  also have "\<dots> = Integer (f + mn)" using b f by (intro round_double_int) simp
  finally have res: "number_add (Integer f) (Integer mn) = Integer (f + mn)" .
  have "fst (getRandomNumber mn mx s) = Integer (f + mn)"
    unfolding getRandomNumber_def Math_random_def
    by (simp only: prod.case fst_conv n r_def[symmetric] number_mul.simps y(1) Math_floor.simps
        f_def[symmetric] res)
  moreover have "mn \<le> f + mn" "f + mn \<le> mx" using f by simp_all
  ultimately show ?thesis by (intro exI[of _ "f + mn"] conjI)
qed

lemma valid_rng_snd: "valid_rng (snd (getRandomNumber mn mx s)) = valid_rng s"
  by (simp add: valid_rng_def getRandomNumber_snd)

subsection \<open>The loop, one iteration at a time\<close>

lemma loop_step:
  "Set_size ns < count \<Longrightarrow>
   generateUniqueNumbers_loop count mn mx ns s =
   generateUniqueNumbers_loop count mn mx (Set_add ns (fst (getRandomNumber mn mx s)))
     (snd (getRandomNumber mn mx s))"
  by (subst generateUniqueNumbers_loop.simps) (simp add: case_prod_beta)

lemma loop_done:
  "\<not> Set_size ns < count \<Longrightarrow> generateUniqueNumbers_loop count mn mx ns s = Some (ns, s)"
  by (subst generateUniqueNumbers_loop.simps) simp

lemma set_Set_add: "set (Set_add ns x) = insert x (set ns)"
  by (auto simp: Set_add_def)

lemma distinct_Set_add: "distinct ns \<Longrightarrow> distinct (Set_add ns x)"
  by (simp add: Set_add_def)

lemma Set_size_Set_add: "Set_size (Set_add ns x) \<le> Set_size ns + 1"
  by (simp add: Set_add_def Set_size_def)

text \<open>
  What holds of a result the loop returns, by induction over its iterations: the values
  of the source are untouched, members stay distinct, the size ends at \<open>count\<close>, and
  every new member is a sampler output of a call made in between.
\<close>

lemma loop_result:
  assumes "generateUniqueNumbers_loop count mn mx ns s = Some (ns', s')"
  shows "source s' = source s \<and> calls s \<le> calls s' \<and> (distinct ns \<longrightarrow> distinct ns') \<and>
         (Set_size ns \<le> count \<longrightarrow> Set_size ns' = count) \<and>
         (\<not> Set_size ns < count \<longrightarrow> ns' = ns \<and> s' = s) \<and>
         set ns' \<subseteq> set ns \<union>
           (\<lambda>i. fst (getRandomNumber mn mx (s\<lparr>calls := i\<rparr>))) ` {calls s..<calls s'}"
  using assms
proof (induction count mn mx ns s "(ns', s')" arbitrary: ns' s'
    rule: generateUniqueNumbers_loop.raw_induct[rotated, consumes 1])
  case (1 f count mn mx ns s)
  note step = 1
  let ?draw = "\<lambda>t i. fst (getRandomNumber mn mx (t\<lparr>calls := i\<rparr>))"
  show ?case
  proof (cases "Set_size ns < count")
    case False
    with step(2) have "ns' = ns" "s' = s" by simp_all
    with False show ?thesis by simp
  next
    case True
    define x where "x = fst (getRandomNumber mn mx s)"
    define s1 where "s1 = snd (getRandomNumber mn mx s)"
    have s1: "source s1 = source s" "calls s1 = Suc (calls s)"
      by (simp_all add: s1_def getRandomNumber_snd)
    have x: "x = ?draw s (calls s)" by (simp add: x_def)
    have same: "?draw s1 i = ?draw s i" for i
      by (rule getRandomNumber_fst_cong) (simp add: s1)
    from step(2) True have "f count mn mx (Set_add ns x) s1 = Some (ns', s')"
      by (simp add: x_def s1_def case_prod_beta)
    from step(1)[OF this]
    have IH: "source s' = source s1" "calls s1 \<le> calls s'"
      "distinct (Set_add ns x) \<longrightarrow> distinct ns'"
      "Set_size (Set_add ns x) \<le> count \<longrightarrow> Set_size ns' = count"
      "set ns' \<subseteq> set (Set_add ns x) \<union> ?draw s1 ` {calls s1..<calls s'}"
      by blast+
    have le: "Set_size (Set_add ns x) \<le> count"
      using True Set_size_Set_add[of ns x] by linarith
    have sub: "set ns' \<subseteq> set ns \<union> ?draw s ` {calls s..<calls s'}"
    proof
      fix y assume "y \<in> set ns'"
      with IH(5) have "y \<in> set ns \<or> y = x \<or> y \<in> ?draw s ` {Suc (calls s)..<calls s'}"
        by (auto simp: set_Set_add s1 same)
      moreover have "calls s \<in> {calls s..<calls s'}" using IH(2) s1 by simp
      moreover have "{Suc (calls s)..<calls s'} \<subseteq> {calls s..<calls s'}" by auto
      ultimately show "y \<in> set ns \<union> ?draw s ` {calls s..<calls s'}"
        using x by blast
    qed
    show ?thesis
      using IH(1-4) s1 le sub True by (simp add: distinct_Set_add)
  qed
qed

subsection \<open>Successive draws on one range\<close>

lemma samplerOutputs_replicate:
  "samplerOutputs (replicate n (mn, mx)) s =
   map (\<lambda>i. fst (getRandomNumber mn mx (s\<lparr>calls := i\<rparr>))) [calls s..<calls s + n]"
proof (induction n arbitrary: s)
  case 0
  show ?case by simp
next
  case (Suc n)
  let ?t = "snd (getRandomNumber mn mx s)"
  have t: "calls ?t = Suc (calls s)" "\<And>i. ?t\<lparr>calls := i\<rparr> = s\<lparr>calls := i\<rparr>"
    by (simp_all add: getRandomNumber_snd)
  have "samplerOutputs (replicate (Suc n) (mn, mx)) s =
        fst (getRandomNumber mn mx s) # samplerOutputs (replicate n (mn, mx)) ?t"
    by (simp add: case_prod_beta)
  also have "\<dots> = fst (getRandomNumber mn mx (s\<lparr>calls := calls s\<rparr>)) #
        map (\<lambda>i. fst (getRandomNumber mn mx (s\<lparr>calls := i\<rparr>))) [Suc (calls s)..<Suc (calls s) + n]"
    by (simp add: Suc.IH t)
  also have "\<dots> = map (\<lambda>i. fst (getRandomNumber mn mx (s\<lparr>calls := i\<rparr>))) [calls s..<calls s + Suc n]"
    by (subst (2) upt_conv_Cons) simp_all
  finally show ?case .
qed

lemma set_samplerOutputs_replicate:
  "set (samplerOutputs (replicate n (mn, mx)) s) =
   (\<lambda>i. fst (getRandomNumber mn mx (s\<lparr>calls := i\<rparr>))) ` {calls s..<calls s + n}"
  by (simp add: samplerOutputs_replicate)

lemma samplerOutputs_in_range:
  assumes "valid_rng s" and "mn \<le> mx" and "safe_bounds mn mx"
  shows "set (samplerOutputs (replicate n (mn, mx)) s) \<subseteq> Integer ` {mn..mx}"
proof -
  have "fst (getRandomNumber mn mx (s\<lparr>calls := i\<rparr>)) \<in> Integer ` {mn..mx}" for i
  proof -
    have "valid_rng (s\<lparr>calls := i\<rparr>)" using assms(1) by (simp add: valid_rng_def)
    from getRandomNumber_range[OF this assms(2,3)] show ?thesis by auto
  qed
  then show ?thesis unfolding set_samplerOutputs_replicate by blast
qed

subsection \<open>The sort\<close>

lemma set_insert_sorted: "set (insert_sorted a bs) = insert a (set bs)"
  by (induction bs) auto

lemma length_insert_sorted: "length (insert_sorted a bs) = Suc (length bs)"
  by (induction bs) auto

lemma distinct_insert_sorted: "distinct (insert_sorted a bs) \<longleftrightarrow> a \<notin> set bs \<and> distinct bs"
  by (induction bs) (auto simp: set_insert_sorted)

lemma set_Array_sort: "set (Array_sort xs) = set xs"
  by (induction xs) (simp_all add: Array_sort_def set_insert_sorted)

lemma length_Array_sort: "length (Array_sort xs) = length xs"
  by (induction xs) (simp_all add: Array_sort_def length_insert_sorted)

lemma distinct_Array_sort: "distinct (Array_sort xs) = distinct xs"
  by (induction xs)
    (simp_all add: Array_sort_def distinct_insert_sorted set_Array_sort[unfolded Array_sort_def])

text \<open>On integers less than \<open>2\<^sup>5\<^sup>3\<close> apart the comparator is exact: \<open>a - b\<close>.\<close>

lemma compareFn_Integer:
  assumes "\<bar>a - b\<bar> \<le> 2 ^ 53"
  shows "positive (compareFn (Integer a) (Integer b)) \<longleftrightarrow> b < a"
proof -
  have "compareFn (Integer a) (Integer b) = round_double (of_int (a - b))"
    by (simp add: compareFn_def number_sub_def)
  also have "\<dots> = Integer (a - b)" using assms by (rule round_double_int)
  finally show ?thesis by simp
qed

lemma insert_sorted_Integer:
  assumes "\<forall>b\<in>set bs. \<bar>a - b\<bar> \<le> 2 ^ 53"
  shows "insert_sorted (Integer a) (map Integer bs) = map Integer (insort a bs)"
  using assms by (induction bs) (auto simp: compareFn_Integer)

lemma Array_sort_Integer:
  assumes "\<forall>a\<in>set xs. \<forall>b\<in>set xs. \<bar>a - b\<bar> \<le> 2 ^ 53"
  shows "Array_sort (map Integer xs) = map Integer (sort xs)"
  using assms
proof (induction xs)
  case Nil
  show ?case by (simp add: Array_sort_def)
next
  case (Cons a xs)
  then have "Array_sort (map Integer xs) = map Integer (sort xs)" by simp
  moreover have "\<forall>b\<in>set (sort xs). \<bar>a - b\<bar> \<le> 2 ^ 53" using Cons.prems by simp
  ultimately show ?case
    using insert_sorted_Integer[of "sort xs" a] by (simp add: Array_sort_def)
qed

lemma map_Integer_ex:
  "set ms \<subseteq> Integer ` A \<Longrightarrow> \<exists>js. ms = map Integer js \<and> set js \<subseteq> A"
proof (induction ms)
  case Nil
  show ?case by simp
next
  case (Cons m ms)
  then obtain js where "ms = map Integer js" "set js \<subseteq> A" by auto
  moreover from Cons.prems obtain j where "m = Integer j" "j \<in> A" by auto
  ultimately have "m # ms = map Integer (j # js) \<and> set (j # js) \<subseteq> A" by simp
  then show ?case by (rule exI)
qed

subsection \<open>When the loop ends\<close>

text \<open>
  The loop ends once the members it has and the outputs of the next \<open>n\<close> draws make
  up \<open>count\<close> different values.
\<close>

lemma loop_terminates:
  "distinct ns \<Longrightarrow>
   count \<le> int (card (set ns \<union> set (samplerOutputs (replicate n (mn, mx)) s))) \<Longrightarrow>
   \<exists>r. generateUniqueNumbers_loop count mn mx ns s = Some r"
proof (induction n arbitrary: ns s)
  case 0
  then have "\<not> Set_size ns < count"
    by (simp add: Set_size_def distinct_card)
  then show ?case by (simp add: loop_done)
next
  case (Suc n)
  show ?case
  proof (cases "Set_size ns < count")
    case False
    then show ?thesis by (simp add: loop_done)
  next
    case True
    let ?x = "fst (getRandomNumber mn mx s)"
    let ?s = "snd (getRandomNumber mn mx s)"
    have "set (Set_add ns ?x) \<union> set (samplerOutputs (replicate n (mn, mx)) ?s) =
          set ns \<union> set (samplerOutputs (replicate (Suc n) (mn, mx)) s)"
      by (simp add: set_Set_add case_prod_beta)
    with Suc.prems(2)
    have "count \<le> int (card (set (Set_add ns ?x) \<union> set (samplerOutputs (replicate n (mn, mx)) ?s)))"
      by simp
    from Suc.IH[OF distinct_Set_add[OF Suc.prems(1)] this]
    show ?thesis by (simp add: loop_step[OF True])
  qed
qed

lemma generateUniqueNumbers_Some:
  assumes "generateUniqueNumbers count mn mx s = Some (ns, s')"
  shows "source s' = source s" and "calls s \<le> calls s'" and "distinct ns"
    and "0 \<le> count \<Longrightarrow> int (length ns) = count"
    and "count \<le> 0 \<Longrightarrow> ns = [] \<and> s' = s"
    and "set ns \<subseteq> set (samplerOutputs (replicate (calls s' - calls s) (mn, mx)) s)"
proof -
  from assms obtain ms where
    loop: "generateUniqueNumbers_loop count mn mx [] s = Some (ms, s')" and ns: "ns = Array_sort ms"
    by (auto simp: generateUniqueNumbers_def split: option.splits)
  note r = loop_result[OF loop]
  show "source s' = source s" "calls s \<le> calls s'" using r by simp_all
  show "distinct ns" using r ns by (simp add: distinct_Array_sort)
  show "int (length ns) = count" if "0 \<le> count"
    using r that ns by (simp add: Set_size_def length_Array_sort)
  show "ns = [] \<and> s' = s" if "count \<le> 0"
    using r that ns by (simp add: Set_size_def Array_sort_def)
  have "calls s + (calls s' - calls s) = calls s'" using r by simp
  then show "set ns \<subseteq> set (samplerOutputs (replicate (calls s' - calls s) (mn, mx)) s)"
    using r ns by (simp add: set_samplerOutputs_replicate set_Array_sort)
qed

lemma generateUniqueNumbers_returns:
  assumes "count \<le> int (card (set (samplerOutputs (replicate n (mn, mx)) s)))"
  shows "\<exists>ns s'. generateUniqueNumbers count mn mx s = Some (ns, s')"
proof -
  from loop_terminates[of "[]" count n mn mx s] assms
  obtain r where "generateUniqueNumbers_loop count mn mx [] s = Some r" by auto
  then show ?thesis by (cases r) (simp add: generateUniqueNumbers_def)
qed

lemma generateUniqueNumbers_needs_draws:
  assumes "generateUniqueNumbers count mn mx s = Some (ns, s')"
  shows "count \<le> int (card (set (samplerOutputs (replicate (calls s' - calls s) (mn, mx)) s)))"
proof (cases "0 \<le> count")
  case False
  then show ?thesis by simp
next
  case True
  note r = generateUniqueNumbers_Some[OF assms]
  have "card (set ns) \<le> card (set (samplerOutputs (replicate (calls s' - calls s) (mn, mx)) s))"
    by (rule card_mono) (use r(6) in simp_all)
  moreover have "int (card (set ns)) = count"
    using r(3) r(4)[OF True] by (simp add: distinct_card)
  ultimately show ?thesis by linarith
qed

subsection \<open>When the loop never ends\<close>

lemma generateUniqueNumbers_None_iff:
  "generateUniqueNumbers count mn mx s = None \<longleftrightarrow>
   (\<forall>n. int (card (set (samplerOutputs (replicate n (mn, mx)) s))) < count)"
proof
  assume none: "generateUniqueNumbers count mn mx s = None"
  show "\<forall>n. int (card (set (samplerOutputs (replicate n (mn, mx)) s))) < count"
  proof (rule ccontr)
    assume "\<not> (\<forall>n. int (card (set (samplerOutputs (replicate n (mn, mx)) s))) < count)"
    then obtain n where "count \<le> int (card (set (samplerOutputs (replicate n (mn, mx)) s)))"
      by (auto simp: not_less)
    from generateUniqueNumbers_returns[OF this] none show False by simp
  qed
next
  assume never: "\<forall>n. int (card (set (samplerOutputs (replicate n (mn, mx)) s))) < count"
  show "generateUniqueNumbers count mn mx s = None"
  proof (rule ccontr)
    assume "generateUniqueNumbers count mn mx s \<noteq> None"
    then obtain ns s' where "generateUniqueNumbers count mn mx s = Some (ns, s')" by auto
    from generateUniqueNumbers_needs_draws[OF this] never show False
      by (auto simp: not_less[symmetric])
  qed
qed


subsection \<open>Results within safe bounds\<close>

text \<open>
  Within safe bounds every member of the set is an integer of \<open>[min, max]\<close>, the
  comparator orders them exactly, and the result is their ascending list.
\<close>

lemma generateUniqueNumbers_integers:
  assumes "valid_rng s" and "mn \<le> mx" and "safe_bounds mn mx"
    and "generateUniqueNumbers count mn mx s = Some (ns, s')"
  shows "\<exists>is. ns = map Integer is \<and> sorted is \<and> distinct is \<and> set is \<subseteq> {mn..mx}"
proof -
  from assms(4) obtain ms where
    loop: "generateUniqueNumbers_loop count mn mx [] s = Some (ms, s')" and ns: "ns = Array_sort ms"
    by (auto simp: generateUniqueNumbers_def split: option.splits)
  note r = loop_result[OF loop]
  have "calls s + (calls s' - calls s) = calls s'" using r by simp
  then have "set ms \<subseteq> set (samplerOutputs (replicate (calls s' - calls s) (mn, mx)) s)"
    using r by (simp add: set_samplerOutputs_replicate)
  with samplerOutputs_in_range[OF assms(1-3)] have "set ms \<subseteq> Integer ` {mn..mx}" by blast
  then obtain js where js: "ms = map Integer js" "set js \<subseteq> {mn..mx}"
    using map_Integer_ex by blast
  have "distinct ms" using r by simp
  then have d: "distinct js" unfolding js(1) by (simp add: distinct_map)
  have w: "mx - mn < 2 ^ 53" using assms(3) by (simp add: safe_bounds_def)
  have "\<forall>a\<in>set js. \<forall>b\<in>set js. \<bar>a - b\<bar> \<le> 2 ^ 53"
  proof (intro ballI)
    fix a b assume "a \<in> set js" "b \<in> set js"
    with js(2) have "mn \<le> a" "a \<le> mx" "mn \<le> b" "b \<le> mx" by auto
    with w show "\<bar>a - b\<bar> \<le> 2 ^ 53" by linarith
  qed
  then have "ns = map Integer (sort js)" unfolding ns js(1) by (rule Array_sort_Integer)
  moreover have "sorted (sort js)" "distinct (sort js)" "set (sort js) \<subseteq> {mn..mx}"
    using d js(2) by simp_all
  ultimately show ?thesis by blast
qed

subsection \<open>Example runs\<close>

lemma eighths_are_doubles: "list_all (\<lambda>k. is_double (of_nat k / 8)) [0..<8]"
  by code_simp

lemma valid_example_rng: "valid_rng example_rng"
proof -
  have "is_double (of_nat (i mod 8) / 8)" for i :: nat
  proof -
    have "i mod 8 \<in> set [0..<8]" by simp
    with eighths_are_doubles show ?thesis unfolding list_all_iff by blast
  qed
  then show ?thesis by (simp add: valid_rng_def example_rng_def)
qed




lemma example_generateUniqueNumbers:
  "map_option (\<lambda>(ns, s'). (ns, calls s')) (generateUniqueNumbers 5 1 69 example_rng) =
   Some (map Integer [1, 9, 18, 26, 35], 5)"
  by code_simp

lemma example_powerball:
  "map_option fst (generatePowerballTicket example_rng) =
   Some \<lparr>PowerballTicket.numbers = map Integer [1, 9, 18, 26, 35], powerball = Integer 17,
          powerPlay = Some (Integer 5)\<rparr>"
  by code_simp

lemma example_megaMillions:
  "map_option fst (generateMegaMillionsTicket example_rng) =
   Some \<lparr>MegaMillionsTicket.numbers = map Integer [1, 9, 18, 27, 36], megaBall = Integer 16,
          megaplier = Some (Integer 5)\<rparr>"
  by code_simp

lemma example_draws_69: "5 \<le> card (set (samplerOutputs (replicate 5 (1, 69)) example_rng))"
  by code_simp

lemma example_draws_70: "5 \<le> card (set (samplerOutputs (replicate 5 (1, 70)) example_rng))"
  by code_simp

lemma mocked_outputs:
  "samplerOutputs [(1, 69), (1, 69), (1, 69), (1, 69), (1, 69), (1, 26), (0, 4)] mocked_rng =
   map Integer [5, 12, 23, 45, 67, 15, 3]"
  by code_simp

lemma sort_fixed_sequence:
  "Array_sort (map Integer [5, 12, 23, 45, 67]) = map Integer [5, 12, 23, 45, 67]"
  by code_simp

subsection \<open>The ticket generators, unfolded\<close>

lemma array_get_in_range:
  "0 \<le> i \<Longrightarrow> i < int (length xs) \<Longrightarrow> array_get xs (Integer i) \<in> Some ` set xs"
  by simp

lemma multiplier_draw:
  assumes "valid_rng s" and "xs \<noteq> []" and "int (length xs) \<le> 2 ^ 53"
  shows "\<exists>i. fst (getRandomNumber 0 (int (length xs) - 1) s) = Integer i \<and>
           0 \<le> i \<and> i < int (length xs)"
    and "array_get xs (fst (getRandomNumber 0 (int (length xs) - 1) s)) \<in> Some ` set xs"
proof -
  have le: "(0::int) \<le> int (length xs) - 1" using assms(2) by (cases xs) simp_all
  have safe: "safe_bounds 0 (int (length xs) - 1)" using assms(3) by (simp add: safe_bounds_def)
  from getRandomNumber_range[OF assms(1) le safe] obtain i where
    i: "fst (getRandomNumber 0 (int (length xs) - 1) s) = Integer i" "0 \<le> i" "i < int (length xs)"
    by auto
  then show "\<exists>i. fst (getRandomNumber 0 (int (length xs) - 1) s) = Integer i \<and>
           0 \<le> i \<and> i < int (length xs)" by blast
  show "array_get xs (fst (getRandomNumber 0 (int (length xs) - 1) s)) \<in> Some ` set xs"
    unfolding i(1) using i(2,3) by (rule array_get_in_range)
qed

lemma generatePowerballTicket_Some:
  assumes "generatePowerballTicket s = Some (t, s')"
  obtains s1 where "generateUniqueNumbers 5 1 69 s = Some (PowerballTicket.numbers t, s1)"
    and "powerball t = fst (getRandomNumber 1 26 s1)"
    and "powerPlay t = array_get powerPlayOptions
           (fst (getRandomNumber 0 (int (length powerPlayOptions) - 1) (snd (getRandomNumber 1 26 s1))))"
    and "s' = snd (getRandomNumber 0 (int (length powerPlayOptions) - 1) (snd (getRandomNumber 1 26 s1)))"
  using assms
  by (auto simp: generatePowerballTicket_def case_prod_beta split: option.splits)

lemma generateMegaMillionsTicket_Some:
  assumes "generateMegaMillionsTicket s = Some (t, s')"
  obtains s1 where "generateUniqueNumbers 5 1 70 s = Some (MegaMillionsTicket.numbers t, s1)"
    and "megaBall t = fst (getRandomNumber 1 25 s1)"
    and "megaplier t = array_get megaplierOptions
           (fst (getRandomNumber 0 (int (length megaplierOptions) - 1) (snd (getRandomNumber 1 25 s1))))"
    and "s' = snd (getRandomNumber 0 (int (length megaplierOptions) - 1) (snd (getRandomNumber 1 25 s1)))"
  using assms
  by (auto simp: generateMegaMillionsTicket_def case_prod_beta split: option.splits)

lemma generatePowerballTicket_returns:
  assumes "generateUniqueNumbers 5 1 69 s = Some (ns, s1)"
  shows "\<exists>t s'. generatePowerballTicket s = Some (t, s')"
  using assms by (simp add: generatePowerballTicket_def case_prod_beta)

lemma generateMegaMillionsTicket_returns:
  assumes "generateUniqueNumbers 5 1 70 s = Some (ns, s1)"
  shows "\<exists>t s'. generateMegaMillionsTicket s = Some (t, s')"
  using assms by (simp add: generateMegaMillionsTicket_def case_prod_beta)

lemma strictly_ascending: "sorted ns \<Longrightarrow> distinct ns \<Longrightarrow> sorted_wrt (<) ns"
  for ns :: "int list"
  by (simp add: strict_sorted_iff)

lemma white_balls:
  assumes "valid_rng s" and "1 \<le> mx" and "mx \<le> 100"
    and "generateUniqueNumbers 5 1 mx s = Some (ns, s1)"
  shows "\<exists>is. ns = map Integer is \<and> length is = 5 \<and> sorted_wrt (<) is \<and> set is \<subseteq> {1..mx}"
    and "valid_rng s1"
proof -
  have safe: "safe_bounds 1 mx" using assms(2,3) by (simp add: safe_bounds_def)
  note p = generateUniqueNumbers_Some[OF assms(4)]
  from generateUniqueNumbers_integers[OF assms(1,2) safe assms(4)] obtain "is" where
    i: "ns = map Integer is" "sorted is" "distinct is" "set is \<subseteq> {1..mx}" by blast
  have "length is = 5" using p(4) i(1) by simp
  then show "\<exists>is. ns = map Integer is \<and> length is = 5 \<and> sorted_wrt (<) is \<and> set is \<subseteq> {1..mx}"
    using i strictly_ascending by blast
  show "valid_rng s1" using p(1) assms(1) by (simp add: valid_rng_def)
qed

lemma special_ball:
  assumes "valid_rng s" and "1 \<le> mx" and "mx \<le> 100"
  shows "\<exists>p. fst (getRandomNumber 1 mx s) = Integer p \<and> p \<in> {1..mx}"
proof -
  have "safe_bounds 1 mx" using assms(2,3) by (simp add: safe_bounds_def)
  from getRandomNumber_range[OF assms(1,2) this] show ?thesis by auto
qed

subsection \<open>Runs with the same sampler outputs\<close>

text \<open>
  The loop reads the source of randomness through the sampler only: a second source on
  which the sampler returns the same values leads it to the same result, after as many
  calls.
\<close>

lemma length_samplerOutputs: "length (samplerOutputs bs s) = length bs"
proof (induction bs arbitrary: s)
  case Nil
  show ?case by simp
next
  case (Cons b bs)
  then show ?case by (cases b) (simp add: case_prod_beta)
qed

lemma samplerOutputs_append:
  "samplerOutputs (bs @ cs) s =
   samplerOutputs bs s @ samplerOutputs cs (s\<lparr>calls := calls s + length bs\<rparr>)"
proof (induction bs arbitrary: s)
  case Nil
  show ?case by simp
next
  case (Cons b bs)
  then show ?case by (cases b) (simp add: case_prod_beta getRandomNumber_snd)
qed

lemma draw_at:
  "samplerOutputs (replicate (Suc i) (mn, mx)) s ! i =
   fst (getRandomNumber mn mx (s\<lparr>calls := calls s + i\<rparr>))"
proof -
  have "[calls s..<calls s + Suc i] ! i = calls s + i" by (rule nth_upt) simp
  then show ?thesis
    unfolding samplerOutputs_replicate by (subst nth_map) (simp_all del: upt_Suc)
qed

lemma same_draws_pointwise:
  assumes "\<forall>n. samplerOutputs (replicate n (mn, mx)) s1 = samplerOutputs (replicate n (mn, mx)) s2"
  shows "fst (getRandomNumber mn mx (s1\<lparr>calls := calls s1 + i\<rparr>)) =
         fst (getRandomNumber mn mx (s2\<lparr>calls := calls s2 + i\<rparr>))"
proof -
  from assms have "samplerOutputs (replicate (Suc i) (mn, mx)) s1 =
                   samplerOutputs (replicate (Suc i) (mn, mx)) s2" by (rule spec)
  then have "samplerOutputs (replicate (Suc i) (mn, mx)) s1 ! i =
             samplerOutputs (replicate (Suc i) (mn, mx)) s2 ! i"
    by (rule arg_cong)
  then show ?thesis unfolding draw_at .
qed

lemma loop_same_outputs:
  assumes "generateUniqueNumbers_loop count mn mx ns s1 = Some (ns', s1')"
    and "\<forall>i. fst (getRandomNumber mn mx (s1\<lparr>calls := calls s1 + i\<rparr>)) =
             fst (getRandomNumber mn mx (s2\<lparr>calls := calls s2 + i\<rparr>))"
  shows "\<exists>s2'. generateUniqueNumbers_loop count mn mx ns s2 = Some (ns', s2') \<and>
           source s2' = source s2 \<and> calls s2' + calls s1 = calls s1' + calls s2"
  using assms
proof (induction count mn mx ns s1 "(ns', s1')" arbitrary: ns' s1' s2
    rule: generateUniqueNumbers_loop.raw_induct[rotated, consumes 1])
  case (1 f count mn mx ns s1)
  note step = 1
  show ?case
  proof (cases "Set_size ns < count")
    case False
    with step(2) have "ns' = ns" "s1' = s1" by simp_all
    with False show ?thesis by (simp add: loop_done)
  next
    case True
    let ?x = "fst (getRandomNumber mn mx s1)"
    let ?t1 = "snd (getRandomNumber mn mx s1)"
    let ?t2 = "snd (getRandomNumber mn mx s2)"
    from step(2) True have run: "f count mn mx (Set_add ns ?x) ?t1 = Some (ns', s1')"
      by (simp add: case_prod_beta)
    have same: "fst (getRandomNumber mn mx s2) = ?x"
      using step(3)[rule_format, of 0] by simp
    have later: "\<forall>i. fst (getRandomNumber mn mx (?t1\<lparr>calls := calls ?t1 + i\<rparr>)) =
                     fst (getRandomNumber mn mx (?t2\<lparr>calls := calls ?t2 + i\<rparr>))"
    proof
      fix i
      show "fst (getRandomNumber mn mx (?t1\<lparr>calls := calls ?t1 + i\<rparr>)) =
            fst (getRandomNumber mn mx (?t2\<lparr>calls := calls ?t2 + i\<rparr>))"
        using step(3)[rule_format, of "Suc i"] by (simp add: getRandomNumber_snd)
    qed
    from step(1)[OF run later] obtain s2' where
      r: "generateUniqueNumbers_loop count mn mx (Set_add ns ?x) ?t2 = Some (ns', s2')" and
      s: "source s2' = source ?t2" and c: "calls s2' + calls ?t1 = calls s1' + calls ?t2"
      by blast
    have "generateUniqueNumbers_loop count mn mx ns s2 = Some (ns', s2')"
      using r by (simp add: loop_step[OF True] same)
    moreover have "source s2' = source s2" using s by (simp add: getRandomNumber_snd)
    moreover have "calls s2' + calls s1 = calls s1' + calls s2"
      using c by (simp add: getRandomNumber_snd)
    ultimately show ?thesis by blast
  qed
qed

lemma generateUniqueNumbers_same_outputs:
  assumes "generateUniqueNumbers count mn mx s1 = Some (ns, s1')"
    and "\<forall>n. samplerOutputs (replicate n (mn, mx)) s1 = samplerOutputs (replicate n (mn, mx)) s2"
  shows "\<exists>s2'. generateUniqueNumbers count mn mx s2 = Some (ns, s2') \<and>
           source s2' = source s2 \<and> calls s2' + calls s1 = calls s1' + calls s2"
proof -
  from assms(1) obtain ms where
    l: "generateUniqueNumbers_loop count mn mx [] s1 = Some (ms, s1')" and ns: "ns = Array_sort ms"
    by (auto simp: generateUniqueNumbers_def split: option.splits)
  have "\<forall>i. fst (getRandomNumber mn mx (s1\<lparr>calls := calls s1 + i\<rparr>)) =
             fst (getRandomNumber mn mx (s2\<lparr>calls := calls s2 + i\<rparr>))"
    using same_draws_pointwise[OF assms(2)] by blast
  from loop_same_outputs[OF l this] show ?thesis
    by (auto simp: generateUniqueNumbers_def ns)
qed

lemma generateUniqueNumbers_deterministic:
  assumes "\<forall>n. samplerOutputs (replicate n (mn, mx)) s1 = samplerOutputs (replicate n (mn, mx)) s2"
  shows "map_option fst (generateUniqueNumbers count mn mx s1) =
         map_option fst (generateUniqueNumbers count mn mx s2)"
proof (cases "generateUniqueNumbers count mn mx s1")
  case (Some r)
  then obtain ns s1' where "generateUniqueNumbers count mn mx s1 = Some (ns, s1')" by (cases r) simp
  from generateUniqueNumbers_same_outputs[OF this assms] this show ?thesis by auto
next
  case None
  have "generateUniqueNumbers count mn mx s2 = None"
  proof (rule ccontr)
    assume "generateUniqueNumbers count mn mx s2 \<noteq> None"
    then obtain ns s2' where r: "generateUniqueNumbers count mn mx s2 = Some (ns, s2')" by auto
    from assms have "\<forall>n. samplerOutputs (replicate n (mn, mx)) s2 =
                         samplerOutputs (replicate n (mn, mx)) s1" by simp
    from generateUniqueNumbers_same_outputs[OF r this] None show False by auto
  qed
  with None show ?thesis by simp
qed

lemma rng_calls_eq:
  fixes s s' :: rng
  assumes "source s' = source s" and "calls s' = calls s + m"
  shows "s' = s\<lparr>calls := calls s + m\<rparr>"
  using assms by simp

lemma ticket_draws:
  assumes H: "\<forall>n. samplerOutputs (replicate n (1, mx) @ [(1, b), (0, k)]) s1 =
                  samplerOutputs (replicate n (1, mx) @ [(1, b), (0, k)]) s2"
    and u: "generateUniqueNumbers 5 1 mx s1 = Some (ns, t1)"
  shows "\<exists>t2. generateUniqueNumbers 5 1 mx s2 = Some (ns, t2) \<and>
           fst (getRandomNumber 1 b t1) = fst (getRandomNumber 1 b t2) \<and>
           fst (getRandomNumber 0 k (snd (getRandomNumber 1 b t1))) =
           fst (getRandomNumber 0 k (snd (getRandomNumber 1 b t2)))"
proof -
  have split: "samplerOutputs (replicate n (1, mx)) s1 = samplerOutputs (replicate n (1, mx)) s2 \<and>
        samplerOutputs [(1, b), (0, k)] (s1\<lparr>calls := calls s1 + n\<rparr>) =
        samplerOutputs [(1, b), (0, k)] (s2\<lparr>calls := calls s2 + n\<rparr>)" for n
    using H[rule_format, of n] by (simp add: samplerOutputs_append length_samplerOutputs)
  then have white: "\<forall>n. samplerOutputs (replicate n (1, mx)) s1 =
                        samplerOutputs (replicate n (1, mx)) s2" by blast
  from generateUniqueNumbers_same_outputs[OF u white] obtain t2 where
    r: "generateUniqueNumbers 5 1 mx s2 = Some (ns, t2)" and
    s: "source t2 = source s2" and c: "calls t2 + calls s1 = calls t1 + calls s2" by blast
  note p = generateUniqueNumbers_Some(1,2)[OF u]
  define m where "m = calls t1 - calls s1"
  have "calls t1 = calls s1 + m" using p(2) by (simp add: m_def)
  with p(1) have t1: "t1 = s1\<lparr>calls := calls s1 + m\<rparr>" by (rule rng_calls_eq)
  have "calls t2 = calls s2 + m" using c p(2) by (simp add: m_def)
  with s have t2: "t2 = s2\<lparr>calls := calls s2 + m\<rparr>" by (rule rng_calls_eq)
  from split[of m] have "samplerOutputs [(1, b), (0, k)] t1 = samplerOutputs [(1, b), (0, k)] t2"
    by (simp only: t1 t2)
  then have "fst (getRandomNumber 1 b t1) = fst (getRandomNumber 1 b t2) \<and>
           fst (getRandomNumber 0 k (snd (getRandomNumber 1 b t1))) =
           fst (getRandomNumber 0 k (snd (getRandomNumber 1 b t2)))"
    by (simp add: case_prod_beta)
  with r show ?thesis by blast
qed

lemma generatePowerballTicket_deterministic:
  assumes "\<forall>n. samplerOutputs (replicate n (1, 69) @ [(1, 26), (0, 4)]) s1 =
                samplerOutputs (replicate n (1, 69) @ [(1, 26), (0, 4)]) s2"
  shows "map_option fst (generatePowerballTicket s1) = map_option fst (generatePowerballTicket s2)"
proof (cases "generateUniqueNumbers 5 1 69 s1")
  case (Some r)
  then obtain ns t1 where u: "generateUniqueNumbers 5 1 69 s1 = Some (ns, t1)" by (cases r) simp
  from ticket_draws[OF assms u] u show ?thesis
    by (auto simp: generatePowerballTicket_def case_prod_beta powerPlayOptions_def)
next
  case None
  have "generateUniqueNumbers 5 1 69 s2 = None"
  proof (rule ccontr)
    assume "generateUniqueNumbers 5 1 69 s2 \<noteq> None"
    then obtain ns t2 where r: "generateUniqueNumbers 5 1 69 s2 = Some (ns, t2)" by auto
    from assms have "\<forall>n. samplerOutputs (replicate n (1, 69) @ [(1, 26), (0, 4)]) s2 =
                samplerOutputs (replicate n (1, 69) @ [(1, 26), (0, 4)]) s1" by simp
    from ticket_draws[OF this r] None show False by auto
  qed
  with None show ?thesis by (simp add: generatePowerballTicket_def)
qed

lemma generateMegaMillionsTicket_deterministic:
  assumes "\<forall>n. samplerOutputs (replicate n (1, 70) @ [(1, 25), (0, 3)]) s1 =
                samplerOutputs (replicate n (1, 70) @ [(1, 25), (0, 3)]) s2"
  shows "map_option fst (generateMegaMillionsTicket s1) =
         map_option fst (generateMegaMillionsTicket s2)"
proof (cases "generateUniqueNumbers 5 1 70 s1")
  case (Some r)
  then obtain ns t1 where u: "generateUniqueNumbers 5 1 70 s1 = Some (ns, t1)" by (cases r) simp
  from ticket_draws[OF assms u] u show ?thesis
    by (auto simp: generateMegaMillionsTicket_def case_prod_beta megaplierOptions_def)
next
  case None
  have "generateUniqueNumbers 5 1 70 s2 = None"
  proof (rule ccontr)
    assume "generateUniqueNumbers 5 1 70 s2 \<noteq> None"
    then obtain ns t2 where r: "generateUniqueNumbers 5 1 70 s2 = Some (ns, t2)" by auto
    from assms have "\<forall>n. samplerOutputs (replicate n (1, 70) @ [(1, 25), (0, 3)]) s2 =
                samplerOutputs (replicate n (1, 70) @ [(1, 25), (0, 3)]) s1" by simp
    from ticket_draws[OF this r] None show False by auto
  qed
  with None show ?thesis by (simp add: generateMegaMillionsTicket_def)
qed

lemma samplerOutputs_cong:
  assumes "\<forall>i. source s1 (calls s1 + i) = source s2 (calls s2 + i)"
  shows "samplerOutputs bs s1 = samplerOutputs bs s2"
  using assms
proof (induction bs arbitrary: s1 s2)
  case Nil
  show ?case by simp
next
  case (Cons b bs)
  obtain mn mx where b: "b = (mn, mx)" by (cases b)
  have "\<forall>i. source (snd (getRandomNumber mn mx s1)) (calls (snd (getRandomNumber mn mx s1)) + i) =
            source (snd (getRandomNumber mn mx s2)) (calls (snd (getRandomNumber mn mx s2)) + i)"
    using Cons.prems by (auto simp: getRandomNumber_snd dest: spec[of _ "Suc _"])
  moreover have "fst (getRandomNumber mn mx s1) = fst (getRandomNumber mn mx s2)"
    using Cons.prems[rule_format, of 0] by (intro getRandomNumber_fst_cong) simp
  ultimately show ?case using Cons.IH by (simp add: b case_prod_beta)
qed

lemma example_shifted: "samplerOutputs bs example_rng = samplerOutputs bs shifted_rng"
  by (rule samplerOutputs_cong) (simp add: example_rng_def shifted_rng_def add.commute add.left_commute)

subsection \<open>Bounds beyond the doubles\<close>

text \<open>
  Between \<open>-2\<^sup>1\<^sup>0\<^sup>2\<^sup>3\<close> and \<open>2\<^sup>1\<^sup>0\<^sup>2\<^sup>3\<close> the range \<open>max - min + 1\<close> is infinite, and a draw
  is \<^verbatim>\<open>Infinity\<close>, or NaN when \<^verbatim>\<open>Math.random\<close> returns zero.
\<close>

lemma huge_range:
  "number_add (number_sub (Integer huge) (Integer (- huge))) (Integer 1) = PosInfinity"
proof -
  have "(2::rat) powi 1024 \<le> of_int (2 ^ 1023) + of_int (2 ^ 1023)"
    by (simp del: of_int_power)
  then have "round_double (of_int (2 ^ 1023) + of_int (2 ^ 1023)) = PosInfinity"
    by (rule round_double_overflow)
  then show ?thesis by (simp add: number_sub_def huge_def del: of_int_power)
qed


lemma huge_draw_zero: "fst (getRandomNumber (- huge) huge zero_rng) = NaN"
  unfolding getRandomNumber_def Math_random_def
  by (simp only: prod.case fst_conv huge_range) (simp add: zero_rng_def)


section \<open>Properties of the generators\<close>

text \<open>
  Claim C1. A Powerball ticket has five strictly ascending numbers, each an integer of
  \<open>[1, 69]\<close>, a Powerball in \<open>[1, 26]\<close> and a Power Play among \<open>2, 3, 4, 5, 10\<close>. The
  generator returns it when \<^verbatim>\<open>Math.random\<close> keeps to its contract and the draws on
  \<open>[1, 69]\<close> reach five different values at some point. The ranges are those of the
  rounded arithmetic of the sampler.
\<close>

theorem generatePowerballTicket_valid:
  assumes "valid_rng s"
    and "5 \<le> card (set (samplerOutputs (replicate n (1, 69)) s))"
  shows "\<exists>t s' ns p. generatePowerballTicket s = Some (t, s') \<and>
           PowerballTicket.numbers t = map Integer ns \<and>
           length ns = 5 \<and> sorted_wrt (<) ns \<and> set ns \<subseteq> {1..69} \<and>
           powerball t = Integer p \<and> p \<in> {1..26} \<and>
           powerPlay t \<in> Some ` Integer ` {2, 3, 4, 5, 10}"
proof -
  from assms(2) have "5 \<le> int (card (set (samplerOutputs (replicate n (1, 69)) s)))" by simp
  from generateUniqueNumbers_returns[OF this] obtain ms s0
    where "generateUniqueNumbers 5 1 69 s = Some (ms, s0)" by blast
  from generatePowerballTicket_returns[OF this] obtain t s'
    where r: "generatePowerballTicket s = Some (t, s')" by blast
  from r obtain s1 where
    u: "generateUniqueNumbers 5 1 69 s = Some (PowerballTicket.numbers t, s1)" and
    b: "powerball t = fst (getRandomNumber 1 26 s1)" and
    m: "powerPlay t = array_get powerPlayOptions
           (fst (getRandomNumber 0 (int (length powerPlayOptions) - 1) (snd (getRandomNumber 1 26 s1))))"
    by (rule generatePowerballTicket_Some)
  have w: "\<exists>is. PowerballTicket.numbers t = map Integer is \<and> length is = 5 \<and>
             sorted_wrt (<) is \<and> set is \<subseteq> {1..69}" and v1: "valid_rng s1"
    using white_balls[OF assms(1) _ _ u] by simp_all
  then obtain ns where ns: "PowerballTicket.numbers t = map Integer ns" "length ns = 5"
    "sorted_wrt (<) ns" "set ns \<subseteq> {1..69}" by blast
  obtain p where p: "powerball t = Integer p" "p \<in> {1..26}"
    unfolding b using special_ball[OF v1, of 26] by auto
  have "valid_rng (snd (getRandomNumber 1 26 s1))"
    using v1 by (simp add: valid_rng_snd)
  then have "powerPlay t \<in> Some ` set powerPlayOptions"
    unfolding m by (rule multiplier_draw(2)) (simp_all add: powerPlayOptions_def)
  then have "powerPlay t \<in> Some ` Integer ` {2, 3, 4, 5, 10}"
    by (simp add: powerPlayOptions_def)
  with r ns p show ?thesis by blast
qed

theorem generatePowerballTicket_valid_witness:
  "valid_rng example_rng \<and>
   5 \<le> card (set (samplerOutputs (replicate 5 (1, 69)) example_rng)) \<and>
   (\<exists>t s' ns p. generatePowerballTicket example_rng = Some (t, s') \<and>
           PowerballTicket.numbers t = map Integer ns \<and>
           length ns = 5 \<and> sorted_wrt (<) ns \<and> set ns \<subseteq> {1..69} \<and>
           powerball t = Integer p \<and> p \<in> {1..26} \<and>
           powerPlay t \<in> Some ` Integer ` {2, 3, 4, 5, 10})"
  using generatePowerballTicket_valid[OF valid_example_rng example_draws_69]
    valid_example_rng example_draws_69 by (intro conjI)

text \<open>
  Claim C2. A Mega Millions ticket has five strictly ascending numbers, each an integer
  of \<open>[1, 70]\<close>, a Mega Ball in \<open>[1, 25]\<close> and a Megaplier among \<open>2, 3, 4, 5\<close>. The
  generator returns it when \<^verbatim>\<open>Math.random\<close> keeps to its contract and the draws on
  \<open>[1, 70]\<close> reach five different values at some point.
\<close>

theorem generateMegaMillionsTicket_valid:
  assumes "valid_rng s"
    and "5 \<le> card (set (samplerOutputs (replicate n (1, 70)) s))"
  shows "\<exists>t s' ns p. generateMegaMillionsTicket s = Some (t, s') \<and>
           MegaMillionsTicket.numbers t = map Integer ns \<and>
           length ns = 5 \<and> sorted_wrt (<) ns \<and> set ns \<subseteq> {1..70} \<and>
           megaBall t = Integer p \<and> p \<in> {1..25} \<and>
           megaplier t \<in> Some ` Integer ` {2, 3, 4, 5}"
proof -
  from assms(2) have "5 \<le> int (card (set (samplerOutputs (replicate n (1, 70)) s)))" by simp
  from generateUniqueNumbers_returns[OF this] obtain ms s0
    where "generateUniqueNumbers 5 1 70 s = Some (ms, s0)" by blast
  from generateMegaMillionsTicket_returns[OF this] obtain t s'
    where r: "generateMegaMillionsTicket s = Some (t, s')" by blast
  from r obtain s1 where
    u: "generateUniqueNumbers 5 1 70 s = Some (MegaMillionsTicket.numbers t, s1)" and
    b: "megaBall t = fst (getRandomNumber 1 25 s1)" and
    m: "megaplier t = array_get megaplierOptions
           (fst (getRandomNumber 0 (int (length megaplierOptions) - 1) (snd (getRandomNumber 1 25 s1))))"
    by (rule generateMegaMillionsTicket_Some)
  have w: "\<exists>is. MegaMillionsTicket.numbers t = map Integer is \<and> length is = 5 \<and>
             sorted_wrt (<) is \<and> set is \<subseteq> {1..70}" and v1: "valid_rng s1"
    using white_balls[OF assms(1) _ _ u] by simp_all
  then obtain ns where ns: "MegaMillionsTicket.numbers t = map Integer ns" "length ns = 5"
    "sorted_wrt (<) ns" "set ns \<subseteq> {1..70}" by blast
  obtain p where p: "megaBall t = Integer p" "p \<in> {1..25}"
    unfolding b using special_ball[OF v1, of 25] by auto
  have "valid_rng (snd (getRandomNumber 1 25 s1))"
    using v1 by (simp add: valid_rng_snd)
  then have "megaplier t \<in> Some ` set megaplierOptions"
    unfolding m by (rule multiplier_draw(2)) (simp_all add: megaplierOptions_def)
  then have "megaplier t \<in> Some ` Integer ` {2, 3, 4, 5}"
    by (simp add: megaplierOptions_def)
  with r ns p show ?thesis by blast
qed

theorem generateMegaMillionsTicket_valid_witness:
  "valid_rng example_rng \<and>
   5 \<le> card (set (samplerOutputs (replicate 5 (1, 70)) example_rng)) \<and>
   (\<exists>t s' ns p. generateMegaMillionsTicket example_rng = Some (t, s') \<and>
           MegaMillionsTicket.numbers t = map Integer ns \<and>
           length ns = 5 \<and> sorted_wrt (<) ns \<and> set ns \<subseteq> {1..70} \<and>
           megaBall t = Integer p \<and> p \<in> {1..25} \<and>
           megaplier t \<in> Some ` Integer ` {2, 3, 4, 5})"
  using generateMegaMillionsTicket_valid[OF valid_example_rng example_draws_70]
    valid_example_rng example_draws_70 by (intro conjI)










text \<open>
  Claim C6. When the sampler returns \<open>5, 12, 23, 45, 67\<close> for the five draws of the
  numbers, then \<open>15\<close> for the Powerball and \<open>3\<close> for the index of the multiplier, the
  Powerball generator returns the ticket with numbers \<open>[5, 12, 23, 45, 67]\<close>,
  Powerball \<open>15\<close> and Power Play \<open>5\<close>.
\<close>

theorem powerball_fixed_sequence:
  assumes "samplerOutputs [(1, 69), (1, 69), (1, 69), (1, 69), (1, 69), (1, 26), (0, 4)] s =
           map Integer [5, 12, 23, 45, 67, 15, 3]"
  shows "map_option fst (generatePowerballTicket s) =
         Some \<lparr>PowerballTicket.numbers = map Integer [5, 12, 23, 45, 67],
                powerball = Integer 15, powerPlay = Some (Integer 5)\<rparr>"
proof -
  define s1 where "s1 = snd (getRandomNumber 1 69 s)"
  define s2 where "s2 = snd (getRandomNumber 1 69 s1)"
  define s3 where "s3 = snd (getRandomNumber 1 69 s2)"
  define s4 where "s4 = snd (getRandomNumber 1 69 s3)"
  define s5 where "s5 = snd (getRandomNumber 1 69 s4)"
  define s6 where "s6 = snd (getRandomNumber 1 26 s5)"
  from assms have d:
    "fst (getRandomNumber 1 69 s) = Integer 5" "fst (getRandomNumber 1 69 s1) = Integer 12"
    "fst (getRandomNumber 1 69 s2) = Integer 23" "fst (getRandomNumber 1 69 s3) = Integer 45"
    "fst (getRandomNumber 1 69 s4) = Integer 67" "fst (getRandomNumber 1 26 s5) = Integer 15"
    "fst (getRandomNumber 0 4 s6) = Integer 3"
    by (simp_all add: case_prod_beta s1_def s2_def s3_def s4_def s5_def s6_def)
  have l0: "generateUniqueNumbers_loop 5 1 69 [] s =
            generateUniqueNumbers_loop 5 1 69 (map Integer [5]) s1"
    by (subst loop_step) (simp_all add: Set_size_def Set_add_def d s1_def)
  have l1: "generateUniqueNumbers_loop 5 1 69 (map Integer [5]) s1 =
            generateUniqueNumbers_loop 5 1 69 (map Integer [5, 12]) s2"
    by (subst loop_step) (simp_all add: Set_size_def Set_add_def d s2_def)
  have l2: "generateUniqueNumbers_loop 5 1 69 (map Integer [5, 12]) s2 =
            generateUniqueNumbers_loop 5 1 69 (map Integer [5, 12, 23]) s3"
    by (subst loop_step) (simp_all add: Set_size_def Set_add_def d s3_def)
  have l3: "generateUniqueNumbers_loop 5 1 69 (map Integer [5, 12, 23]) s3 =
            generateUniqueNumbers_loop 5 1 69 (map Integer [5, 12, 23, 45]) s4"
    by (subst loop_step) (simp_all add: Set_size_def Set_add_def d s4_def)
  have l4: "generateUniqueNumbers_loop 5 1 69 (map Integer [5, 12, 23, 45]) s4 =
            generateUniqueNumbers_loop 5 1 69 (map Integer [5, 12, 23, 45, 67]) s5"
    by (subst loop_step) (simp_all add: Set_size_def Set_add_def d s5_def)
  have l5: "generateUniqueNumbers_loop 5 1 69 (map Integer [5, 12, 23, 45, 67]) s5 =
            Some (map Integer [5, 12, 23, 45, 67], s5)"
    by (rule loop_done) (simp add: Set_size_def)
  have u: "generateUniqueNumbers 5 1 69 s = Some (map Integer [5, 12, 23, 45, 67], s5)"
    unfolding generateUniqueNumbers_def l0 l1 l2 l3 l4 l5 by (simp only: option.case prod.case sort_fixed_sequence)
  show ?thesis
    unfolding generatePowerballTicket_def u
    by (simp add: case_prod_beta d s6_def[symmetric] powerPlayOptions_def)
qed

theorem powerball_fixed_sequence_witness:
  "samplerOutputs [(1, 69), (1, 69), (1, 69), (1, 69), (1, 69), (1, 26), (0, 4)] mocked_rng =
     map Integer [5, 12, 23, 45, 67, 15, 3] \<and>
   map_option fst (generatePowerballTicket mocked_rng) =
     Some \<lparr>PowerballTicket.numbers = map Integer [5, 12, 23, 45, 67],
            powerball = Integer 15, powerPlay = Some (Integer 5)\<rparr>"
  using powerball_fixed_sequence[OF mocked_outputs] mocked_outputs by (intro conjI)

text \<open>
  Claim C7. The result of \<^verbatim>\<open>generateUniqueNumbers\<close> and of both ticket generators is
  determined by the sequence of sampler outputs: two runs, on sources of randomness
  that may differ, for which the sampler returns the same values call after call,
  either both never return or return the same result.
\<close>

theorem generators_deterministic:
  "((\<forall>n. samplerOutputs (replicate n (min', max')) s1 =
         samplerOutputs (replicate n (min', max')) s2) \<longrightarrow>
    map_option fst (generateUniqueNumbers count min' max' s1) =
    map_option fst (generateUniqueNumbers count min' max' s2)) \<and>
   ((\<forall>n. samplerOutputs (replicate n (1, 69) @ [(1, 26), (0, 4)]) s1 =
         samplerOutputs (replicate n (1, 69) @ [(1, 26), (0, 4)]) s2) \<longrightarrow>
    map_option fst (generatePowerballTicket s1) = map_option fst (generatePowerballTicket s2)) \<and>
   ((\<forall>n. samplerOutputs (replicate n (1, 70) @ [(1, 25), (0, 3)]) s1 =
         samplerOutputs (replicate n (1, 70) @ [(1, 25), (0, 3)]) s2) \<longrightarrow>
    map_option fst (generateMegaMillionsTicket s1) =
    map_option fst (generateMegaMillionsTicket s2))"
  using generateUniqueNumbers_deterministic[of min' max' s1 s2 count]
    generatePowerballTicket_deterministic[of s1 s2]
    generateMegaMillionsTicket_deterministic[of s1 s2]
  by blast

theorem generators_deterministic_witness:
  "example_rng \<noteq> shifted_rng \<and>
   (\<forall>n. samplerOutputs (replicate n (1, 69)) example_rng =
        samplerOutputs (replicate n (1, 69)) shifted_rng) \<and>
   map_option fst (generateUniqueNumbers 5 1 69 example_rng) =
   map_option fst (generateUniqueNumbers 5 1 69 shifted_rng) \<and>
   (\<forall>n. samplerOutputs (replicate n (1, 69) @ [(1, 26), (0, 4)]) example_rng =
        samplerOutputs (replicate n (1, 69) @ [(1, 26), (0, 4)]) shifted_rng) \<and>
   map_option fst (generatePowerballTicket example_rng) =
   map_option fst (generatePowerballTicket shifted_rng) \<and>
   (\<forall>n. samplerOutputs (replicate n (1, 70) @ [(1, 25), (0, 3)]) example_rng =
        samplerOutputs (replicate n (1, 70) @ [(1, 25), (0, 3)]) shifted_rng) \<and>
   map_option fst (generateMegaMillionsTicket example_rng) =
   map_option fst (generateMegaMillionsTicket shifted_rng)"
proof -
  have d: "example_rng \<noteq> shifted_rng"
  proof
    assume "example_rng = shifted_rng"
    then have "calls example_rng = calls shifted_rng" by simp
    then show False by (simp add: example_rng_def shifted_rng_def)
  qed
  from generators_deterministic[of 1 69 example_rng shifted_rng 5] d show ?thesis
    by (simp add: example_shifted)
qed

text \<open>
  Claim C8. For a count of at least zero and any source of randomness, a result that
  \<^verbatim>\<open>generateUniqueNumbers\<close> returns has exactly \<open>count\<close> elements, never more.
  (An insertion grows the set by at most one, \<open>Set_size_Set_add\<close>, and the loop is
  left as soon as the size is no longer below \<open>count\<close>.)
\<close>

theorem generateUniqueNumbers_exact_count:
  assumes "0 \<le> count" and "generateUniqueNumbers count min' max' s = Some (ns, s')"
  shows "int (length ns) = count"
  using generateUniqueNumbers_Some(4)[OF assms(2) assms(1)] .

theorem generateUniqueNumbers_exact_count_witness:
  "(0::int) \<le> 5 \<and>
   (\<exists>ns s'. generateUniqueNumbers 5 1 69 example_rng = Some (ns, s') \<and> int (length ns) = 5)"
proof -
  from example_generateUniqueNumbers obtain ns s'
    where r: "generateUniqueNumbers 5 1 69 example_rng = Some (ns, s')" by auto
  from generateUniqueNumbers_exact_count[OF _ r] r show ?thesis by auto
qed

text \<open>
  Claim C9. For a count of zero or less, and any bounds, \<^verbatim>\<open>generateUniqueNumbers\<close>
  returns the empty sequence at once; the source of randomness is left as it was, so
  the sampler has not been called.
\<close>

theorem generateUniqueNumbers_nonpositive_count:
  assumes "count \<le> 0"
  shows "generateUniqueNumbers count min' max' s = Some ([], s)"
  using assms by (simp add: generateUniqueNumbers_def loop_done Set_size_def Array_sort_def)

theorem generateUniqueNumbers_nonpositive_count_witness:
  "(0::int) \<le> 0 \<and> generateUniqueNumbers 0 1 69 example_rng = Some ([], example_rng) \<and>
   generateUniqueNumbers (- 3) 1 69 example_rng = Some ([], example_rng)"
  using generateUniqueNumbers_nonpositive_count[of 0 1 69 example_rng]
    generateUniqueNumbers_nonpositive_count[of "- 3" 1 69 example_rng] by simp

text \<open>
  Claim C10. In both generators the index of the multiplier is drawn from
  \<open>[0, length - 1]\<close> of the option list. When \<^verbatim>\<open>Math.random\<close> keeps to its contract
  the index is a position of the list, the read yields an element of the list, and the
  multiplier of a returned ticket is never \<^verbatim>\<open>undefined\<close>.
\<close>

theorem multiplier_index_in_range:
  assumes "valid_rng s"
  shows "(\<exists>i. fst (getRandomNumber 0 (int (length powerPlayOptions) - 1) s) = Integer i \<and>
            0 \<le> i \<and> i < int (length powerPlayOptions)) \<and>
         array_get powerPlayOptions (fst (getRandomNumber 0 (int (length powerPlayOptions) - 1) s))
           \<in> Some ` set powerPlayOptions \<and>
         (\<exists>i. fst (getRandomNumber 0 (int (length megaplierOptions) - 1) s) = Integer i \<and>
            0 \<le> i \<and> i < int (length megaplierOptions)) \<and>
         array_get megaplierOptions (fst (getRandomNumber 0 (int (length megaplierOptions) - 1) s))
           \<in> Some ` set megaplierOptions \<and>
         (\<forall>t s'. generatePowerballTicket s = Some (t, s') \<longrightarrow>
            powerPlay t \<in> Some ` set powerPlayOptions) \<and>
         (\<forall>t s'. generateMegaMillionsTicket s = Some (t, s') \<longrightarrow>
            megaplier t \<in> Some ` set megaplierOptions)"
proof -
  have p: "powerPlayOptions \<noteq> []" "int (length powerPlayOptions) \<le> 2 ^ 53"
    by (simp_all add: powerPlayOptions_def)
  have m: "megaplierOptions \<noteq> []" "int (length megaplierOptions) \<le> 2 ^ 53"
    by (simp_all add: megaplierOptions_def)
  have "powerPlay t \<in> Some ` set powerPlayOptions"
    if "generatePowerballTicket s = Some (t, s')" for t s'
  proof -
    from that obtain s1 where
      u: "generateUniqueNumbers 5 1 69 s = Some (PowerballTicket.numbers t, s1)" and
      e: "powerPlay t = array_get powerPlayOptions
           (fst (getRandomNumber 0 (int (length powerPlayOptions) - 1) (snd (getRandomNumber 1 26 s1))))"
      by (rule generatePowerballTicket_Some)
    have "valid_rng (snd (getRandomNumber 1 26 s1))"
      using generateUniqueNumbers_Some(1)[OF u] assms by (simp add: valid_rng_def getRandomNumber_snd)
    then show ?thesis unfolding e using p by (rule multiplier_draw(2))
  qed
  moreover have "megaplier t \<in> Some ` set megaplierOptions"
    if "generateMegaMillionsTicket s = Some (t, s')" for t s'
  proof -
    from that obtain s1 where
      u: "generateUniqueNumbers 5 1 70 s = Some (MegaMillionsTicket.numbers t, s1)" and
      e: "megaplier t = array_get megaplierOptions
           (fst (getRandomNumber 0 (int (length megaplierOptions) - 1) (snd (getRandomNumber 1 25 s1))))"
      by (rule generateMegaMillionsTicket_Some)
    have "valid_rng (snd (getRandomNumber 1 25 s1))"
      using generateUniqueNumbers_Some(1)[OF u] assms by (simp add: valid_rng_def getRandomNumber_snd)
    then show ?thesis unfolding e using m by (rule multiplier_draw(2))
  qed
  ultimately show ?thesis
    using multiplier_draw[OF assms p] multiplier_draw[OF assms m] by blast
qed

theorem multiplier_index_in_range_witness:
  "valid_rng example_rng \<and>
   array_get powerPlayOptions
     (fst (getRandomNumber 0 (int (length powerPlayOptions) - 1) example_rng))
     \<in> Some ` set powerPlayOptions \<and>
   array_get megaplierOptions
     (fst (getRandomNumber 0 (int (length megaplierOptions) - 1) example_rng))
     \<in> Some ` set megaplierOptions \<and>
   (\<exists>t s'. generatePowerballTicket example_rng = Some (t, s') \<and>
      powerPlay t \<in> Some ` set powerPlayOptions) \<and>
   (\<exists>t s'. generateMegaMillionsTicket example_rng = Some (t, s') \<and>
      megaplier t \<in> Some ` set megaplierOptions)"
proof -
  have v: "valid_rng example_rng" by (rule valid_example_rng)
  from example_powerball obtain t s'
    where p: "generatePowerballTicket example_rng = Some (t, s')" by auto
  from example_megaMillions obtain u s''
    where m: "generateMegaMillionsTicket example_rng = Some (u, s'')" by auto
  from multiplier_index_in_range[OF v] v p m show ?thesis by blast
qed

end
